theory Spec2Isabelle
  imports Main "HOL-Library.Word" "HOL-Library.Multiset" "HOL-Library.Sublist"
begin

section \<open>Data model\<close>

text \<open>
  The program works on the tree that \<^verbatim>\<open>json.load\<close> returns: \<^verbatim>\<open>None\<close>, booleans,
  unbounded integers, floats, strings, lists and dictionaries with string keys.
  A dictionary is kept as an association list in insertion order (the order in which
  \<^verbatim>\<open>values()\<close> and iteration visit it); a dictionary built by the parser has pairwise
  different keys, and a lookup takes the first entry of a key.  A float is the 64 bits of
  its IEEE binary64 value.  A string is a list of characters, each standing for the code
  point of the same number, so the model covers the strings over the first 256 code
  points.  The depth of a document is not bounded: the limit of the interpreter on the
  depth of recursion is left out.
\<close>

datatype json =
    JNull
  | JBool bool
  | JInt int
  | JFloat "64 word"
  | JStr string
  | JList "json list"
  | JDict "(string \<times> json) list"

text \<open>The exceptions the program can raise on a parsed document.\<close>

datatype py_error = AttributeError | TypeError | KeyError | OSError

section \<open>URL extraction\<close>

text \<open>
  \<^verbatim>\<open>\S\<close> in a pattern over \<^verbatim>\<open>str\<close> is any character that is not Unicode white space.
  Below code point 256 the white space characters are 9 to 13, 28 to 32, 133 and 160.
\<close>

definition is_space :: "char \<Rightarrow> bool" where
  "is_space c = (of_char c \<in> {9, 10, 11, 12, 13, 28, 29, 30, 31, 32, 133, 160 :: nat})"

text \<open>
  One attempt of the pattern \<^verbatim>\<open>https?://\S+\<close> at the start of a string: the matched text
  and what follows it.  After \<^verbatim>\<open>http\<close> the optional \<^verbatim>\<open>s\<close> is taken when it is there;
  giving it back cannot help, since \<^verbatim>\<open>://\<close> would then have to start with that
  \<^verbatim>\<open>s\<close>.  \<^verbatim>\<open>\S+\<close> is greedy and takes the whole run of non-space characters, which
  must not be empty.
\<close>

definition match_url :: "string \<Rightarrow> (string \<times> string) option" where
  "match_url s =
     (let scheme = (if prefix ''https://'' s then Some ''https://''
                    else if prefix ''http://'' s then Some ''http://''
                    else None)
      in case scheme of
           None \<Rightarrow> None
         | Some p \<Rightarrow>
             (let rest = drop (length p) s;
                  run = takeWhile (\<lambda>c. \<not> is_space c) rest
              in if run = [] then None
                 else Some (p @ run, dropWhile (\<lambda>c. \<not> is_space c) rest)))"

lemma match_url_shorter:
  "match_url s = Some (m, rest) \<Longrightarrow> length rest < length s"
  by (auto simp: match_url_def Let_def prefix_def split: if_splits
           intro!: le_less_trans [OF length_dropWhile_le])

text \<open>
  \<^verbatim>\<open>re.findall\<close>: the matches found scanning from left to right; after a match the scan
  goes on behind it, otherwise one character further.
\<close>

function findall_url :: "string \<Rightarrow> string list" where
  "findall_url [] = []"
| "findall_url (c # cs) =
     (case match_url (c # cs) of
        Some (m, rest) \<Rightarrow> m # findall_url rest
      | None \<Rightarrow> findall_url cs)"
  by pat_completeness auto
termination
  by (relation "measure length") (auto dest: match_url_shorter)

text \<open>
  The inner function \<^verbatim>\<open>search\<close> of \<^verbatim>\<open>extract_urls\<close>, returning what it appends to
  \<^verbatim>\<open>urls\<close>: it visits the values of a dictionary and the items of a list, scans a
  string, and does nothing on any other value.
\<close>

fun search :: "json \<Rightarrow> string list" where
  "search (JDict kvs) = concat (map (\<lambda>kv. search (snd kv)) kvs)"
| "search (JList xs) = concat (map search xs)"
| "search (JStr s) = findall_url s"
| "search _ = []"

section \<open>The environment of a run\<close>

text \<open>
  What a run takes from outside the program: the outcome of opening and parsing a file
  (\<^verbatim>\<open>json.load\<close> on \<^verbatim>\<open>open(file_path)\<close>: the text of the exception, or the tree),
  whether a path exists, whether creating a folder fails, the exception a write to a path
  ends with (if any), the order in which \<^verbatim>\<open>list(set(urls))\<close> enumerates a set (it depends on
  the hashes of the strings, which change from process to process), the text
  \<^verbatim>\<open>json.dumps\<close> writes for a float, and the float that \<^verbatim>\<open>float\<close> reads from the
  text of a number.
\<close>

record world =
  read_json :: "string \<Rightarrow> string + json"
  path_exists :: "string \<Rightarrow> bool"
  makedirs_fails :: "string \<Rightarrow> bool"
  write_error :: "string \<Rightarrow> string option"
  set_order :: "string list \<Rightarrow> string list"
  float_repr :: "64 word \<Rightarrow> string"
  float_parse :: "string \<Rightarrow> 64 word"

text \<open>
  \<^verbatim>\<open>list(set(urls))\<close> has every element of \<^verbatim>\<open>urls\<close> once, in some order.
\<close>

definition set_order_ok :: "world \<Rightarrow> bool" where
  "set_order_ok w = (\<forall>xs. distinct (set_order w xs) \<and> set (set_order w xs) = set xs)"

text \<open>What a run does to the outside, in the order it does it.\<close>

datatype event =
    Print string
  | MakeDirs string
  | WriteJson string json
  | WriteCsv string "string list" "(string \<times> json) list list"

text \<open>
  A computation prints and writes, and then returns a value or raises; an exception
  keeps what was printed and written before it.
\<close>

type_synonym 'a run = "event list \<times> (py_error + 'a)"

definition bind_err :: "py_error + 'a \<Rightarrow> ('a \<Rightarrow> py_error + 'b) \<Rightarrow> py_error + 'b" where
  "bind_err r f = (case r of Inl e \<Rightarrow> Inl e | Inr a \<Rightarrow> f a)"

definition bind_run :: "'a run \<Rightarrow> ('a \<Rightarrow> 'b run) \<Rightarrow> 'b run" where
  "bind_run m f =
     (case m of
        (es, Inl e) \<Rightarrow> (es, Inl e)
      | (es, Inr a) \<Rightarrow> (case f a of (es', r) \<Rightarrow> (es @ es', r)))"

definition emit :: "event list \<Rightarrow> unit run" where
  "emit es = (es, Inr ())"

definition lift :: "py_error + 'a \<Rightarrow> 'a run" where
  "lift r = ([], r)"

section \<open>Operations of Python on a parsed value\<close>

text \<open>\<^verbatim>\<open>not obj\<close> is false exactly on these.\<close>

fun py_truthy :: "json \<Rightarrow> bool" where
  "py_truthy JNull = False"
| "py_truthy (JBool b) = b"
| "py_truthy (JInt i) = (i \<noteq> 0)"
| "py_truthy (JFloat f) = (take_bit 63 f \<noteq> 0)"
| "py_truthy (JStr s) = (s \<noteq> [])"
| "py_truthy (JList xs) = (xs \<noteq> [])"
| "py_truthy (JDict kvs) = (kvs \<noteq> [])"

text \<open>\<^verbatim>\<open>obj.get(key, default)\<close>: only a dictionary has the method.\<close>

fun py_get :: "json \<Rightarrow> string \<Rightarrow> json \<Rightarrow> py_error + json" where
  "py_get (JDict kvs) key dflt = Inr (case map_of kvs key of None \<Rightarrow> dflt | Some v \<Rightarrow> v)"
| "py_get _ key dflt = Inl AttributeError"

text \<open>
  \<^verbatim>\<open>key in obj\<close> for a string \<^verbatim>\<open>key\<close>: a key of a dictionary, an item of a list, a
  substring of a string; any other value is not iterable.
\<close>

fun py_contains :: "string \<Rightarrow> json \<Rightarrow> py_error + bool" where
  "py_contains key (JDict kvs) = Inr (key \<in> set (map fst kvs))"
| "py_contains key (JList xs) = Inr (JStr key \<in> set xs)"
| "py_contains key (JStr s) = Inr (sublist key s)"
| "py_contains key _ = Inl TypeError"

text \<open>\<^verbatim>\<open>obj[key]\<close> for a string \<^verbatim>\<open>key\<close> that a dictionary \<^verbatim>\<open>obj\<close> is known to hold.\<close>

fun py_index :: "json \<Rightarrow> string \<Rightarrow> py_error + json" where
  "py_index (JDict kvs) key = (case map_of kvs key of None \<Rightarrow> Inl KeyError | Some v \<Rightarrow> Inr v)"
| "py_index _ key = Inl TypeError"

text \<open>
  \<^verbatim>\<open>for x in obj\<close>: the items of a list, the keys of a dictionary, the characters of a
  string; any other value is not iterable.
\<close>

fun py_iter :: "json \<Rightarrow> py_error + json list" where
  "py_iter (JList xs) = Inr xs"
| "py_iter (JDict kvs) = Inr (map (\<lambda>kv. JStr (fst kv)) kvs)"
| "py_iter (JStr s) = Inr (map (\<lambda>c. JStr [c]) s)"
| "py_iter _ = Inl TypeError"

section \<open>The functions of the program\<close>

subsection \<open>load_json\<close>

text \<open>Any exception is printed and \<^verbatim>\<open>None\<close> is returned; nothing is raised.\<close>

definition load_json :: "world \<Rightarrow> string \<Rightarrow> json run" where
  "load_json w file_path =
     (case read_json w file_path of
        Inr data \<Rightarrow> ([], Inr data)
      | Inl e \<Rightarrow> ([Print (''Error loading JSON file: '' @ e)], Inr JNull))"

subsection \<open>extract_urls\<close>

definition extract_urls :: "world \<Rightarrow> json \<Rightarrow> string list" where
  "extract_urls w json_data = set_order w (search json_data)"

subsection \<open>extract_chain_of_thought, extract_tool_executions\<close>

definition extract_chain_of_thought :: "json \<Rightarrow> json run" where
  "extract_chain_of_thought json_data =
     (case py_contains ''chain_of_thought'' json_data of
        Inl e \<Rightarrow> ([], Inl e)
      | Inr present \<Rightarrow>
          (if present then []
           else [Print ''Warning: 'chain_of_thought' key not found in JSON. Using an empty list.''],
           py_get json_data ''chain_of_thought'' (JList [])))"

text \<open>The body of the loop over the steps: the records one step appends.\<close>

definition step_tool_executions :: "json \<Rightarrow> py_error + json list" where
  "step_tool_executions step =
     bind_err (py_contains ''tool_executions'' step) (\<lambda>present.
       if present then bind_err (py_index step ''tool_executions'') py_iter
       else Inr [])"

text \<open>The loop over the steps, with the list \<^verbatim>\<open>tool_execs\<close> it appends to.\<close>

fun collect_steps :: "json list \<Rightarrow> json list \<Rightarrow> py_error + json list" where
  "collect_steps [] tool_execs = Inr tool_execs"
| "collect_steps (step # steps) tool_execs =
     bind_err (step_tool_executions step) (\<lambda>recs. collect_steps steps (tool_execs @ recs))"

definition extract_tool_executions :: "json \<Rightarrow> json list run" where
  "extract_tool_executions json_data =
     bind_run (extract_chain_of_thought json_data) (\<lambda>chain.
       lift (bind_err (py_iter chain) (\<lambda>steps. collect_steps steps [])))"

subsection \<open>sort_urls_by_relevance\<close>

definition default_keywords :: "string list" where
  "default_keywords =
     [''maps'', ''flights'', ''hotels'', ''booking'', ''price'', ''search'', ''showtimes'']"

text \<open>The keyword list in use: the argument, or the default list when it is \<^verbatim>\<open>None\<close>.\<close>

definition keywords_or_default :: "string list option \<Rightarrow> string list" where
  "keywords_or_default keywords_arg =
     (case keywords_arg of None \<Rightarrow> default_keywords | Some keywords \<Rightarrow> keywords)"

text \<open>
  \<^verbatim>\<open>str.lower\<close> below code point 256: the letters A to Z, and the letters from 192 to
  222 but for the multiplication sign 215, move up by 32.
\<close>

definition lower_char :: "char \<Rightarrow> char" where
  "lower_char c =
     (let n = of_char c :: nat
      in if (65 \<le> n \<and> n \<le> 90) \<or> (192 \<le> n \<and> n \<le> 222 \<and> n \<noteq> 215)
         then char_of (n + 32) else c)"

definition lower :: "string \<Rightarrow> string" where
  "lower s = map lower_char s"

text \<open>
  \<^verbatim>\<open>sum(1 for keyword in keywords if keyword in url.lower())\<close>: one for every entry of
  the keyword list that is a substring of the lowered URL.
\<close>

definition url_score :: "string list \<Rightarrow> string \<Rightarrow> nat" where
  "url_score keywords url =
     sum_list (map (\<lambda>keyword. 1) (filter (\<lambda>keyword. sublist keyword (lower url)) keywords))"

text \<open>
  \<^verbatim>\<open>url_relevance[score].append(url)\<close> on the \<^verbatim>\<open>defaultdict(list)\<close>, kept as an
  association list in insertion order: a score seen before gets the URL at the end of
  its list, a new score is entered with the list of that URL alone.
\<close>

fun append_at :: "nat \<Rightarrow> string \<Rightarrow> (nat \<times> string list) list \<Rightarrow> (nat \<times> string list) list" where
  "append_at score url [] = [(score, [url])]"
| "append_at score url ((k, us) # m) =
     (if k = score then (k, us @ [url]) # m else (k, us) # append_at score url m)"

text \<open>The first loop, with the dictionary it fills.\<close>

fun group_by_score ::
  "string list \<Rightarrow> string list \<Rightarrow> (nat \<times> string list) list \<Rightarrow> (nat \<times> string list) list" where
  "group_by_score keywords [] url_relevance = url_relevance"
| "group_by_score keywords (url # urls) url_relevance =
     group_by_score keywords urls (append_at (url_score keywords url) url url_relevance)"

text \<open>
  The second loop: the scores in descending order (they are pairwise different, so
  \<^verbatim>\<open>sorted(..., reverse=True)\<close> is the ascending order reversed), each giving its list.
\<close>

definition sort_urls_by_relevance :: "string list \<Rightarrow> string list option \<Rightarrow> string list" where
  "sort_urls_by_relevance urls keywords_arg =
     (let keywords = keywords_or_default keywords_arg;
          url_relevance = group_by_score keywords urls []
      in concat (map (\<lambda>score. case map_of url_relevance score of None \<Rightarrow> [] | Some us \<Rightarrow> us)
                     (rev (sort (map fst url_relevance)))))"

subsection \<open>json.dumps\<close>

text \<open>
  \<^verbatim>\<open>json.dumps\<close> with its default arguments, as the library documents it: items
  separated by a comma and a space, keys from values by a colon and a space, only ASCII in
  the output.  In a string the quote, the backslash and the control characters with a
  short form get it; any other character outside the range from the space to the tilde
  is written as a backslash, the letter u and four lower-case hexadecimal digits.
\<close>

definition digit_char :: "nat \<Rightarrow> char" where
  "digit_char n = char_of (if n < 10 then 48 + n else 87 + n)"

fun show_nat :: "nat \<Rightarrow> string" where
  "show_nat n = (if n < 10 then [digit_char n] else show_nat (n div 10) @ [digit_char (n mod 10)])"

declare show_nat.simps [simp del]

definition show_int :: "int \<Rightarrow> string" where
  "show_int i = (if i < 0 then CHR ''-'' # show_nat (nat (- i)) else show_nat (nat i))"

definition escape_char :: "char \<Rightarrow> string" where
  "escape_char c =
     (let n = of_char c :: nat
      in if n = 34 then [CHR 0x5C, CHR 0x22]
         else if n = 92 then [CHR 0x5C, CHR 0x5C]
         else if n = 8 then [CHR 0x5C, CHR ''b'']
         else if n = 12 then [CHR 0x5C, CHR ''f'']
         else if n = 10 then [CHR 0x5C, CHR ''n'']
         else if n = 13 then [CHR 0x5C, CHR ''r'']
         else if n = 9 then [CHR 0x5C, CHR ''t'']
         else if 32 \<le> n \<and> n \<le> 126 then [c]
         else [CHR 0x5C, CHR ''u'', CHR ''0'', CHR ''0'', digit_char (n div 16), digit_char (n mod 16)])"

definition quote :: "string \<Rightarrow> string" where
  "quote s = CHR 0x22 # concat (map escape_char s) @ [CHR 0x22]"

fun join :: "string \<Rightarrow> string list \<Rightarrow> string" where
  "join sep [] = []"
| "join sep [x] = x"
| "join sep (x # y # ys) = x @ sep @ join sep (y # ys)"

fun json_dumps :: "world \<Rightarrow> json \<Rightarrow> string" where
  "json_dumps w JNull = ''null''"
| "json_dumps w (JBool b) = (if b then ''true'' else ''false'')"
| "json_dumps w (JInt i) = show_int i"
| "json_dumps w (JFloat f) = float_repr w f"
| "json_dumps w (JStr s) = quote s"
| "json_dumps w (JList xs) = ''['' @ join '', '' (map (json_dumps w) xs) @ '']''"
| "json_dumps w (JDict kvs) =
     ''{'' @ join '', '' (map (\<lambda>kv. quote (fst kv) @ '': '' @ json_dumps w (snd kv)) kvs) @ ''}''"

subsection \<open>flatten_tool_execution\<close>

definition flatten_tool_execution :: "world \<Rightarrow> json \<Rightarrow> py_error + (string \<times> json) list" where
  "flatten_tool_execution w exec_data =
     bind_err (py_get exec_data ''tool_name'' (JStr [])) (\<lambda>tool_name.
     bind_err (py_get exec_data ''method_name'' (JStr [])) (\<lambda>method_name.
     bind_err (py_get exec_data ''params'' (JDict [])) (\<lambda>params.
     bind_err (py_get exec_data ''output'' (JList [])) (\<lambda>output.
       Inr [(''tool_name'', tool_name),
            (''method_name'', method_name),
            (''params'', JStr (json_dumps w params)),
            (''output'', JStr (json_dumps w output))]))))"

subsection \<open>save_to_json, save_to_csv\<close>

text \<open>
  Both open the file and write; an exception is printed and not raised, so what follows
  a write does not depend on its outcome.
\<close>

definition save_to_json :: "world \<Rightarrow> json \<Rightarrow> string \<Rightarrow> unit run" where
  "save_to_json w data output_file =
     emit (WriteJson output_file data #
           (case write_error w output_file of
              None \<Rightarrow> []
            | Some e \<Rightarrow> [Print (''Error saving to JSON: '' @ e)]))"

definition save_to_csv ::
  "world \<Rightarrow> (string \<times> json) list list \<Rightarrow> string \<Rightarrow> string list \<Rightarrow> unit run" where
  "save_to_csv w data output_file headers =
     emit (WriteCsv output_file headers data #
           (case write_error w output_file of
              None \<Rightarrow> []
            | Some e \<Rightarrow> [Print (''Error saving to CSV: '' @ e)]))"

subsection \<open>main\<close>

text \<open>\<^verbatim>\<open>os.path.join\<close> of a folder and a relative file name, on a POSIX system.\<close>

definition path_join :: "string \<Rightarrow> string \<Rightarrow> string" where
  "path_join a b = (if a = [] \<or> last a = CHR ''/'' then a @ b else a @ ''/'' @ b)"

text \<open>A list comprehension over a function that may raise.\<close>

fun map_err :: "('a \<Rightarrow> py_error + 'b) \<Rightarrow> 'a list \<Rightarrow> py_error + 'b list" where
  "map_err f [] = Inr []"
| "map_err f (x # xs) = bind_err (f x) (\<lambda>y. bind_err (map_err f xs) (\<lambda>ys. Inr (y # ys)))"

text \<open>
  \<^verbatim>\<open>main(input_file, output_folder)\<close>, statement by statement.  \<^verbatim>\<open>os.makedirs\<close> is
  called outside any \<^verbatim>\<open>try\<close>: when it fails (as it does on the empty path) the run
  ends with its exception before the file is loaded.
\<close>

definition main :: "world \<Rightarrow> string \<Rightarrow> string option \<Rightarrow> unit run" where
  "main w input_file output_folder_arg =
     bind_run (case output_folder_arg of
                 None \<Rightarrow> ([], Inr ''.'')
               | Some d \<Rightarrow>
                   if path_exists w d then ([], Inr d)
                   else ([MakeDirs d], if makedirs_fails w d then Inl OSError else Inr d))
       (\<lambda>output_folder.
     bind_run (load_json w input_file) (\<lambda>json_data.
     if \<not> py_truthy json_data then emit []
     else
     bind_run (lift (py_get json_data ''location'' (JStr []))) (\<lambda>location.
     bind_run (lift (py_get json_data ''time'' (JStr []))) (\<lambda>time.
     bind_run (lift (py_get json_data ''error'' (JStr []))) (\<lambda>error.
     bind_run (lift (py_get json_data ''observation'' (JStr []))) (\<lambda>observation.
     let metadata = JDict [(''location'', location), (''time'', time),
                           (''error'', error), (''observation'', observation)]
     in
     bind_run (extract_chain_of_thought json_data) (\<lambda>chain.
     bind_run (extract_tool_executions json_data) (\<lambda>tool_execs.
     bind_run (lift (map_err (flatten_tool_execution w) tool_execs)) (\<lambda>flat_tool_execs.
     let all_urls = extract_urls w json_data;
         sorted_urls = sort_urls_by_relevance all_urls None
     in
     bind_run (emit (if sorted_urls = [] then [Print ''No URLs were found in the JSON data.'']
                     else [])) (\<lambda>_.
     let output_data = JDict [(''metadata'', metadata),
                              (''chain_of_thought'', chain),
                              (''tool_executions'', JList tool_execs),
                              (''sorted_urls'', JList (map JStr sorted_urls))];
         json_output = path_join output_folder ''extracted_data.json'';
         tool_csv_output = path_join output_folder ''tool_executions.csv'';
         urls_csv_output = path_join output_folder ''urls.csv''
     in
     bind_run (save_to_json w output_data json_output) (\<lambda>_.
     bind_run (case flat_tool_execs of
                 row # _ \<Rightarrow> save_to_csv w flat_tool_execs tool_csv_output (map fst row)
               | [] \<Rightarrow> emit [Print ''No tool execution details found to export.'']) (\<lambda>_.
     bind_run (if sorted_urls \<noteq> []
               then save_to_csv w (map (\<lambda>url. [(''url'', JStr url)]) sorted_urls)
                                urls_csv_output [''url'']
               else emit []) (\<lambda>_.
     emit ([Print ''Data extraction complete. Files saved:'',
            Print (''  - '' @ json_output)]
           @ (if flat_tool_execs \<noteq> [] then [Print (''  - '' @ tool_csv_output)] else [])
           @ (if sorted_urls \<noteq> [] then [Print (''  - '' @ urls_csv_output)] else [])))))))))))))))"

section \<open>Notions of the specification\<close>

text \<open>
  The score as the specification words it: the number of different keywords that occur
  in the URL when case is ignored.
\<close>

definition spec_score :: "string list \<Rightarrow> string \<Rightarrow> nat" where
  "spec_score keywords url =
     length (filter (\<lambda>keyword. sublist (lower keyword) (lower url)) (remdups keywords))"

text \<open>
  The number of entries of the keyword list that occur in the URL when case is ignored;
  an entry that stands twice in the list counts twice.
\<close>

definition entry_score :: "string list \<Rightarrow> string \<Rightarrow> nat" where
  "entry_score keywords url =
     length (filter (\<lambda>keyword. sublist (lower keyword) (lower url)) keywords)"

text \<open>What the dictionary of the ranker gives for a score.\<close>

definition lookup :: "(nat \<times> string list) list \<Rightarrow> nat \<Rightarrow> string list" where
  "lookup m k = (case map_of m k of None \<Rightarrow> [] | Some us \<Rightarrow> us)"

text \<open>
  The output folder in use; whether the run gets to loading (the folder is the default,
  or exists, or can be created); and the writes a run attempted.
\<close>

definition folder_of :: "string option \<Rightarrow> string" where
  "folder_of arg = (case arg of None \<Rightarrow> ''.'' | Some d \<Rightarrow> d)"

definition folder_ok :: "world \<Rightarrow> string option \<Rightarrow> bool" where
  "folder_ok w arg =
     (case arg of None \<Rightarrow> True | Some d \<Rightarrow> path_exists w d \<or> \<not> makedirs_fails w d)"

fun is_csv_to :: "string \<Rightarrow> event \<Rightarrow> bool" where
  "is_csv_to p (WriteCsv q headers rows) = (q = p)"
| "is_csv_to p _ = False"

definition csv_attempted :: "string \<Rightarrow> event list \<Rightarrow> bool" where
  "csv_attempted p evs = list_ex (is_csv_to p) evs"

fun is_json_to :: "string \<Rightarrow> json \<Rightarrow> event \<Rightarrow> bool" where
  "is_json_to p data (WriteJson q d) = (q = p \<and> d = data)"
| "is_json_to p data _ = False"

definition json_attempted :: "string \<Rightarrow> json \<Rightarrow> event list \<Rightarrow> bool" where
  "json_attempted p data evs = list_ex (is_json_to p data) evs"

text \<open>
  The shape of a trace: a step is a mapping whose field \<^verbatim>\<open>tool_executions\<close>, when it
  has one, is a sequence; that sequence holds the records of the step.
\<close>

fun step_ok :: "json \<Rightarrow> bool" where
  "step_ok (JDict kvs) =
     (case map_of kvs ''tool_executions'' of
        None \<Rightarrow> True
      | Some (JList recs) \<Rightarrow> True
      | Some _ \<Rightarrow> False)"
| "step_ok _ = False"

fun step_records :: "json \<Rightarrow> json list" where
  "step_records (JDict kvs) =
     (case map_of kvs ''tool_executions'' of
        Some (JList recs) \<Rightarrow> recs
      | _ \<Rightarrow> [])"
| "step_records _ = []"

fun is_mapping :: "json \<Rightarrow> bool" where
  "is_mapping (JDict kvs) = True"
| "is_mapping _ = False"

text \<open>The events of the warning, and the report, of a run on a document \<open>JDict kvs\<close>.\<close>

definition chain_warning :: "(string \<times> json) list \<Rightarrow> event list" where
  "chain_warning kvs =
     (if ''chain_of_thought'' \<in> fst ` set kvs then []
      else [Print ''Warning: 'chain_of_thought' key not found in JSON. Using an empty list.''])"

definition report_of :: "world \<Rightarrow> (string \<times> json) list \<Rightarrow> json list \<Rightarrow> json" where
  "report_of w kvs recs =
     JDict [(''metadata'',
             JDict [(''location'', case map_of kvs ''location'' of None \<Rightarrow> JStr [] | Some v \<Rightarrow> v),
                    (''time'', case map_of kvs ''time'' of None \<Rightarrow> JStr [] | Some v \<Rightarrow> v),
                    (''error'', case map_of kvs ''error'' of None \<Rightarrow> JStr [] | Some v \<Rightarrow> v),
                    (''observation'',
                       case map_of kvs ''observation'' of None \<Rightarrow> JStr [] | Some v \<Rightarrow> v)]),
            (''chain_of_thought'',
               case map_of kvs ''chain_of_thought'' of None \<Rightarrow> JList [] | Some v \<Rightarrow> v),
            (''tool_executions'', JList recs),
            (''sorted_urls'',
               JList (map JStr (sort_urls_by_relevance (extract_urls w (JDict kvs)) None)))]"

text \<open>
  One environment for the examples: every file reads as \<open>rd\<close> says, every path exists,
  no write fails, a set is enumerated in the order of its last occurrences, and the one
  float is zero, written \<^verbatim>\<open>0.0\<close>.
\<close>

definition example_world :: "(string \<Rightarrow> string + json) \<Rightarrow> world" where
  "example_world rd =
     \<lparr>read_json = rd, path_exists = (\<lambda>p. True), makedirs_fails = (\<lambda>p. False),
      write_error = (\<lambda>p. None), set_order = remdups, float_repr = (\<lambda>f. ''0.0''),
      float_parse = (\<lambda>t. 0)\<rparr>"

text \<open>The document of the end-to-end example of the specification, and its one URL.\<close>

definition example_document :: json where
  "example_document =
     JDict [(''location'', JStr ''NYC''),
            (''chain_of_thought'',
               JList [JDict [(''tool_executions'',
                 JList [JDict [(''tool_name'', JStr ''flights''),
                               (''params'', JDict []),
                               (''output'', JList [JInt 1])]])]]),
            (''notes'', JStr ''see https://flights.example.com/search?x=1'')]"

definition example_url :: string where
  "example_url = ''https://flights.example.com/search?x=1''"

text \<open>
  A document with one URL whose trace has a record that is not a mapping, and one whose
  step has a \<^verbatim>\<open>tool_executions\<close> field that is not a sequence.
\<close>

definition raising_document :: json where
  "raising_document =
     JDict [(''chain_of_thought'', JList [JDict [(''tool_executions'', JList [JStr ''x''])]]),
            (''u'', JStr ''http://maps.example'')]"

definition null_field_document :: json where
  "null_field_document =
     JDict [(''chain_of_thought'', JList [JDict [(''tool_executions'', JNull)]])]"

text \<open>
  The words of the specification on URLs.  A text is URL-like when it is one of the two
  prefixes followed by at least one character, and holds no white space.  A text has a
  URL start when it begins with a URL-like text.  A URL-like substring of a string is a
  URL-like text standing in it up to the end of the string or to white space (its run of
  non-space characters is maximal).  It is reported when, moreover, it does not begin
  inside another URL-like substring: no URL-like text starts earlier in the same
  stretch of non-space characters.
\<close>

definition no_space :: "string \<Rightarrow> bool" where
  "no_space s = (\<forall>c\<in>set s. \<not> is_space c)"

definition url_like :: "string \<Rightarrow> bool" where
  "url_like u =
     ((\<exists>r. r \<noteq> [] \<and> (u = ''http://'' @ r \<or> u = ''https://'' @ r)) \<and> no_space u)"

definition url_starts :: "string \<Rightarrow> bool" where
  "url_starts t = (\<exists>u rest. t = u @ rest \<and> url_like u)"

definition url_substring :: "string \<Rightarrow> string \<Rightarrow> bool" where
  "url_substring s u =
     (url_like u \<and> (\<exists>pre post. s = pre @ u @ post \<and> (post = [] \<or> is_space (hd post))))"

definition reported :: "string \<Rightarrow> string \<Rightarrow> bool" where
  "reported s u =
     (url_like u \<and>
      (\<exists>pre post. s = pre @ u @ post \<and> (post = [] \<or> is_space (hd post))
         \<and> (\<forall>a b. pre = a @ b \<and> b \<noteq> [] \<and> no_space b \<longrightarrow> \<not> url_starts (b @ u @ post))))"

text \<open>
  The string values of a document: at any depth, through the values of mappings and the
  items of sequences; the keys of a mapping are not among them.
\<close>

fun string_values :: "json \<Rightarrow> string list" where
  "string_values (JStr s) = [s]"
| "string_values (JList xs) = concat (map string_values xs)"
| "string_values (JDict kvs) = concat (map (\<lambda>kv. string_values (snd kv)) kvs)"
| "string_values _ = []"

section \<open>Auxiliary lemmas\<close>

subsection \<open>The dictionary of the ranker\<close>

lemma lookup_append_at:
  "lookup (append_at k u m) k' = lookup m k' @ (if k' = k then [u] else [])"
  by (induction k u m rule: append_at.induct) (auto simp: lookup_def)

lemma keys_append_at:
  "fst ` set (append_at k u m) = insert k (fst ` set m)"
  by (induction k u m rule: append_at.induct) (simp_all add: insert_commute)

lemma distinct_append_at:
  "distinct (map fst m) \<Longrightarrow> distinct (map fst (append_at k u m))"
  by (induction k u m rule: append_at.induct) (auto simp: keys_append_at)

lemma lookup_group:
  "lookup (group_by_score kws urls m) k = lookup m k @ filter (\<lambda>u. url_score kws u = k) urls"
  by (induction urls arbitrary: m) (auto simp: lookup_append_at)

lemma keys_group:
  "fst ` set (group_by_score kws urls m) = fst ` set m \<union> url_score kws ` set urls"
  by (induction urls arbitrary: m) (simp_all add: keys_append_at)

lemma distinct_group:
  "distinct (map fst m) \<Longrightarrow> distinct (map fst (group_by_score kws urls m))"
  by (induction urls arbitrary: m) (auto simp: distinct_append_at)

lemma sort_urls_eq:
  "sort_urls_by_relevance urls ka =
     concat (map (\<lambda>k. filter (\<lambda>u. url_score (keywords_or_default ka) u = k) urls)
                 (rev (sort (map fst (group_by_score (keywords_or_default ka) urls [])))))"
  using lookup_group [of "keywords_or_default ka" urls "[]"]
  by (simp add: sort_urls_by_relevance_def Let_def lookup_def)

subsection \<open>Buckets taken in descending order\<close>

lemma mset_buckets:
  "distinct ks \<Longrightarrow>
   mset (concat (map (\<lambda>k. filter (\<lambda>u. f u = k) xs) ks)) = mset (filter (\<lambda>u. f u \<in> set ks) xs)"
proof (induction ks)
  case Nil
  then show ?case by simp
next
  case (Cons k ks)
  have "mset (filter (\<lambda>u. f u = k) xs) + mset (filter (\<lambda>u. f u \<in> set ks) xs)
        = mset (filter (\<lambda>u. f u = k \<or> f u \<in> set ks) xs)"
    using Cons.prems by (induction xs) auto
  with Cons show ?case by simp
qed

lemma filter_buckets:
  "distinct ks \<Longrightarrow>
   filter (\<lambda>u. f u = k) (concat (map (\<lambda>k'. filter (\<lambda>u. f u = k') xs) ks))
     = (if k \<in> set ks then filter (\<lambda>u. f u = k) xs else [])"
proof (induction ks)
  case Nil
  then show ?case by simp
next
  case (Cons a ks)
  have a: "filter (\<lambda>u. f u = k) (filter (\<lambda>u. f u = a) xs)
           = (if k = a then filter (\<lambda>u. f u = k) xs else [])"
    by (induction xs) auto
  from Cons a show ?case by auto
qed

lemma sorted_bucket:
  "sorted_wrt (\<lambda>a b. f b \<le> f a) (filter (\<lambda>u. f u = k) xs)" for f :: "'a \<Rightarrow> nat"
  by (induction xs) auto

lemma sorted_buckets:
  "sorted_wrt (\<lambda>a b. b < a) ks \<Longrightarrow>
   sorted_wrt (\<lambda>a b. f b \<le> f a) (concat (map (\<lambda>k. filter (\<lambda>u. f u = k) xs) ks))"
  for f :: "'a \<Rightarrow> nat"
  by (induction ks) (auto simp: sorted_wrt_append sorted_bucket)

lemma desc_keys:
  "distinct ks \<Longrightarrow> sorted_wrt (\<lambda>a b. b < a) (rev (sort ks))" for ks :: "nat list"
  by (simp add: sorted_wrt_rev strict_sorted_iff)

lemma ranked_eq:
  "\<exists>ks. distinct ks \<and> set ks = url_score (keywords_or_default ka) ` set urls
        \<and> sorted_wrt (\<lambda>a b. b < a) ks
        \<and> sort_urls_by_relevance urls ka =
            concat (map (\<lambda>k. filter (\<lambda>u. url_score (keywords_or_default ka) u = k) urls) ks)"
proof -
  let ?g = "group_by_score (keywords_or_default ka) urls []"
  have d: "distinct (map fst ?g)"
    by (rule distinct_group) simp
  show ?thesis
    by (rule exI [of _ "rev (sort (map fst ?g))"])
       (simp add: d desc_keys sort_urls_eq keys_group)
qed

lemma mset_sort_urls:
  "mset (sort_urls_by_relevance urls ka) = mset urls"
proof -
  obtain ks where ks: "distinct ks" "set ks = url_score (keywords_or_default ka) ` set urls"
    and eq: "sort_urls_by_relevance urls ka =
             concat (map (\<lambda>k. filter (\<lambda>u. url_score (keywords_or_default ka) u = k) urls) ks)"
    using ranked_eq by blast
  have "filter (\<lambda>u. url_score (keywords_or_default ka) u \<in> set ks) urls = urls"
    by (simp add: ks(2))
  with mset_buckets [OF ks(1), of "url_score (keywords_or_default ka)" urls] eq
  show ?thesis by simp
qed

lemma sort_urls_Nil_iff:
  "sort_urls_by_relevance urls ka = [] \<longleftrightarrow> urls = []"
  using mset_sort_urls [of urls ka] by (metis mset_zero_iff)

lemma url_score_count:
  "url_score keywords url = length (filter (\<lambda>keyword. sublist keyword (lower url)) keywords)"
  by (simp add: url_score_def sum_list_triv flip: length_map)

lemma url_score_entry:
  assumes "\<forall>keyword\<in>set keywords. lower keyword = keyword"
  shows "url_score keywords url = entry_score keywords url"
proof -
  have "filter (\<lambda>keyword. sublist keyword (lower url)) keywords
        = filter (\<lambda>keyword. sublist (lower keyword) (lower url)) keywords"
    using assms by (intro filter_cong) auto
  then show ?thesis
    by (simp add: url_score_count entry_score_def)
qed

lemma entry_score_spec:
  "distinct keywords \<Longrightarrow> entry_score keywords url = spec_score keywords url"
  by (simp add: entry_score_def spec_score_def distinct_remdups_id)

subsection \<open>Dictionaries, steps and records\<close>

lemma py_contains_dict:
  "py_contains key (JDict kvs) = Inr (map_of kvs key \<noteq> None)"
  by (simp add: map_of_eq_None_iff)

lemma extract_chain_dict:
  "extract_chain_of_thought (JDict kvs) =
     (chain_warning kvs,
      Inr (case map_of kvs ''chain_of_thought'' of None \<Rightarrow> JList [] | Some v \<Rightarrow> v))"
  by (simp add: extract_chain_of_thought_def chain_warning_def)

lemma step_tool_executions_ok:
  "step_ok step \<Longrightarrow> step_tool_executions step = Inr (step_records step)"
proof (cases step)
  case (JDict kvs)
  assume "step_ok step"
  with JDict show ?thesis
    by (cases "map_of kvs ''tool_executions''")
       (auto simp: step_tool_executions_def bind_err_def py_contains_dict
             simp del: py_contains.simps split: json.splits)
qed auto

lemma collect_steps_ok:
  "list_all step_ok steps \<Longrightarrow>
   collect_steps steps acc = Inr (acc @ concat (map step_records steps))"
  by (induction steps arbitrary: acc) (simp_all add: step_tool_executions_ok bind_err_def)

lemma extract_tool_executions_ok:
  assumes "map_of kvs ''chain_of_thought'' = Some (JList steps)" "list_all step_ok steps"
  shows "extract_tool_executions (JDict kvs) = ([], Inr (concat (map step_records steps)))"
proof -
  have "''chain_of_thought'' \<in> fst ` set kvs"
    using assms(1) by (metis map_of_eq_None_iff option.distinct(1))
  then show ?thesis
    using assms
    by (simp add: extract_tool_executions_def extract_chain_dict chain_warning_def bind_run_def
          lift_def bind_err_def collect_steps_ok)
qed

lemma flatten_dict:
  "flatten_tool_execution w (JDict kvs) =
     Inr [(''tool_name'', case map_of kvs ''tool_name'' of None \<Rightarrow> JStr [] | Some v \<Rightarrow> v),
          (''method_name'', case map_of kvs ''method_name'' of None \<Rightarrow> JStr [] | Some v \<Rightarrow> v),
          (''params'',
             JStr (json_dumps w (case map_of kvs ''params'' of None \<Rightarrow> JDict [] | Some v \<Rightarrow> v))),
          (''output'',
             JStr (json_dumps w (case map_of kvs ''output'' of None \<Rightarrow> JList [] | Some v \<Rightarrow> v)))]"
  by (simp add: flatten_tool_execution_def bind_err_def)

lemma flatten_mappings:
  "list_all is_mapping recs \<Longrightarrow> \<exists>flat. map_err (flatten_tool_execution w) recs = Inr flat"
proof (induction recs)
  case Nil
  then show ?case by simp
next
  case (Cons r recs)
  then obtain flat where "map_err (flatten_tool_execution w) recs = Inr flat" by auto
  moreover from Cons.prems obtain kvs where "r = JDict kvs" by (cases r) auto
  ultimately show ?case
    by (simp add: flatten_dict bind_err_def)
qed

lemma map_err_length:
  "map_err f xs = Inr ys \<Longrightarrow> length ys = length xs"
  by (induction xs arbitrary: ys) (auto simp: bind_err_def split: sum.splits)

subsection \<open>Runs of main\<close>


lemma path_join_neq:
  "path_join a ''urls.csv'' \<noteq> path_join a ''tool_executions.csv''"
  by (simp add: path_join_def)



text \<open>A run on a non-empty dictionary whose trace has the expected shape.\<close>

lemma main_dict:
  assumes "read_json w f = Inr (JDict kvs)" "kvs \<noteq> []"
    and "extract_tool_executions (JDict kvs) = (es, Inr recs)"
    and "map_err (flatten_tool_execution w) recs = Inr flat"
    and "folder_ok w arg"
  shows "main w f arg =
    ((case arg of None \<Rightarrow> [] | Some d \<Rightarrow> if path_exists w d then [] else [MakeDirs d])
     @ chain_warning kvs @ es
     @ (let folder = (case arg of None \<Rightarrow> ''.'' | Some d \<Rightarrow> d);
            sorted_urls = sort_urls_by_relevance (extract_urls w (JDict kvs)) None;
            json_output = path_join folder ''extracted_data.json'';
            tool_csv_output = path_join folder ''tool_executions.csv'';
            urls_csv_output = path_join folder ''urls.csv''
        in (if sorted_urls = [] then [Print ''No URLs were found in the JSON data.''] else [])
         @ fst (save_to_json w (report_of w kvs recs) json_output)
         @ (case flat of
              row # _ \<Rightarrow> fst (save_to_csv w flat tool_csv_output (map fst row))
            | [] \<Rightarrow> [Print ''No tool execution details found to export.''])
         @ (if sorted_urls \<noteq> []
            then fst (save_to_csv w (map (\<lambda>url. [(''url'', JStr url)]) sorted_urls)
                        urls_csv_output [''url''])
            else [])
         @ [Print ''Data extraction complete. Files saved:'', Print (''  - '' @ json_output)]
         @ (if flat \<noteq> [] then [Print (''  - '' @ tool_csv_output)] else [])
         @ (if sorted_urls \<noteq> [] then [Print (''  - '' @ urls_csv_output)] else [])),
     Inr ())"
  using assms
  by (cases arg; cases flat)
     (auto simp: main_def bind_run_def load_json_def lift_def emit_def Let_def
        extract_chain_dict save_to_json_def save_to_csv_def report_of_def folder_ok_def)

lemma json_attempted_main:
  assumes "read_json w f = Inr (JDict kvs)" "kvs \<noteq> []"
    and "extract_tool_executions (JDict kvs) = (es, Inr recs)"
    and "map_err (flatten_tool_execution w) recs = Inr flat"
    and "folder_ok w arg"
  shows "json_attempted (path_join (folder_of arg) ''extracted_data.json'')
           (report_of w kvs recs) (fst (main w f arg))
         \<and> snd (main w f arg) = Inr ()"
  unfolding main_dict [OF assms]
  by (cases arg)
     (simp_all add: json_attempted_def folder_of_def Let_def save_to_json_def emit_def)

text \<open>The runs that raise: they attempt no CSV write.\<close>

lemma no_csv_extract:
  "extract_tool_executions (JDict kvs) = (es, r) \<Longrightarrow> \<not> csv_attempted p es"
  by (auto simp: extract_tool_executions_def bind_run_def lift_def extract_chain_dict
        chain_warning_def csv_attempted_def split: if_splits)





lemma csv_attempted_main:
  assumes "read_json w f = Inr (JDict kvs)" "kvs \<noteq> []"
    and "extract_tool_executions (JDict kvs) = (es, Inr recs)"
    and "map_err (flatten_tool_execution w) recs = Inr flat"
    and "folder_ok w arg"
  shows "csv_attempted (path_join (folder_of arg) ''urls.csv'') (fst (main w f arg))
           \<longleftrightarrow> extract_urls w (JDict kvs) \<noteq> []"
    and "csv_attempted (path_join (folder_of arg) ''tool_executions.csv'') (fst (main w f arg))
           \<longleftrightarrow> recs \<noteq> []"
proof -
  let ?sorted = "sort_urls_by_relevance (extract_urls w (JDict kvs)) None"
  note m = main_dict [OF assms]
  have no: "\<not> list_ex (is_csv_to p) es" for p
    using no_csv_extract [OF assms(3)] by (simp add: csv_attempted_def)
  have "csv_attempted (path_join (folder_of arg) ''urls.csv'') (fst (main w f arg))
          \<longleftrightarrow> ?sorted \<noteq> []"
    unfolding m
    using no path_join_neq [of "folder_of arg"]
    by (cases arg; cases flat)
       (auto simp: csv_attempted_def folder_of_def Let_def save_to_json_def save_to_csv_def
          emit_def chain_warning_def split: option.splits)
  then show "csv_attempted (path_join (folder_of arg) ''urls.csv'') (fst (main w f arg))
           \<longleftrightarrow> extract_urls w (JDict kvs) \<noteq> []"
    by (simp add: sort_urls_Nil_iff)
  have "csv_attempted (path_join (folder_of arg) ''tool_executions.csv'') (fst (main w f arg))
          \<longleftrightarrow> flat \<noteq> []"
    unfolding m
    using no path_join_neq [of "folder_of arg", symmetric]
    by (cases arg; cases flat)
       (auto simp: csv_attempted_def folder_of_def Let_def save_to_json_def save_to_csv_def
          emit_def chain_warning_def split: option.splits)
  with map_err_length [OF assms(4)]
  show "csv_attempted (path_join (folder_of arg) ''tool_executions.csv'') (fst (main w f arg))
           \<longleftrightarrow> recs \<noteq> []"
    by auto
qed

subsection \<open>The example\<close>

lemma set_order_single:
  assumes "set_order_ok w"
  shows "set_order w [x] = [x]"
proof -
  from assms have d: "distinct (set_order w [x])" and s: "set (set_order w [x]) = {x}"
    by (simp_all add: set_order_ok_def)
  from distinct_card [OF d] s have "length (set_order w [x]) = 1" by simp
  then obtain y where "set_order w [x] = [y]"
    by (cases "set_order w [x]") auto
  with s show ?thesis by simp
qed

lemma sort_urls_single:
  "sort_urls_by_relevance [x] ka = [x]"
  using mset_sort_urls [of "[x]" ka] by (simp add: mset_single_iff_right)

lemma search_example:
  "search example_document = [example_url]"
  unfolding example_document_def example_url_def by code_simp

lemma example_world_ok:
  "set_order_ok (example_world rd)" "folder_ok (example_world rd) arg"
  by (simp_all add: set_order_ok_def folder_ok_def example_world_def split: option.splits)

lemma example_run:
  assumes "set_order_ok w" and "read_json w f = Inr example_document" and "folder_ok w arg"
  shows "snd (main w f arg) = Inr ()"
    and "json_attempted (path_join (folder_of arg) ''extracted_data.json'')
           (JDict [(''metadata'', JDict [(''location'', JStr ''NYC''), (''time'', JStr []),
                                         (''error'', JStr []), (''observation'', JStr [])]),
                   (''chain_of_thought'',
                      JList [JDict [(''tool_executions'',
                        JList [JDict [(''tool_name'', JStr ''flights''), (''params'', JDict []),
                                      (''output'', JList [JInt 1])]])]]),
                   (''tool_executions'',
                      JList [JDict [(''tool_name'', JStr ''flights''), (''params'', JDict []),
                                    (''output'', JList [JInt 1])]]),
                   (''sorted_urls'', JList [JStr example_url])])
           (fst (main w f arg))"
    and "csv_attempted (path_join (folder_of arg) ''urls.csv'') (fst (main w f arg))"
    and "csv_attempted (path_join (folder_of arg) ''tool_executions.csv'') (fst (main w f arg))"
proof -
  let ?rec = "JDict [(''tool_name'', JStr ''flights''), (''params'', JDict []),
                     (''output'', JList [JInt 1])]"
  let ?steps = "[JDict [(''tool_executions'', JList [?rec])]]"
  let ?kvs = "[(''location'', JStr ''NYC''), (''chain_of_thought'', JList ?steps),
               (''notes'', JStr ''see https://flights.example.com/search?x=1'')]"
  have doc: "example_document = JDict ?kvs" by (simp add: example_document_def)
  have ex: "extract_tool_executions (JDict ?kvs) = ([], Inr [?rec])"
    using extract_tool_executions_ok [of ?kvs ?steps] by simp
  obtain flat where fl: "map_err (flatten_tool_execution w) [?rec] = Inr flat"
    using flatten_mappings [of "[?rec]" w] by auto
  have eu: "extract_urls w (JDict ?kvs) = [example_url]"
    using search_example assms(1) by (simp add: extract_urls_def doc set_order_single)
  note rd = assms(2) [unfolded doc]
  from json_attempted_main [OF rd _ ex fl assms(3)]
  show "snd (main w f arg) = Inr ()" by simp
  from json_attempted_main [OF rd _ ex fl assms(3)]
  show "json_attempted (path_join (folder_of arg) ''extracted_data.json'')
           (JDict [(''metadata'', JDict [(''location'', JStr ''NYC''), (''time'', JStr []),
                                         (''error'', JStr []), (''observation'', JStr [])]),
                   (''chain_of_thought'', JList ?steps),
                   (''tool_executions'', JList [?rec]),
                   (''sorted_urls'', JList [JStr example_url])])
           (fst (main w f arg))"
    by (simp add: report_of_def eu sort_urls_single)
  from csv_attempted_main [OF rd _ ex fl assms(3)] eu
  show "csv_attempted (path_join (folder_of arg) ''urls.csv'') (fst (main w f arg))"
    and "csv_attempted (path_join (folder_of arg) ''tool_executions.csv'') (fst (main w f arg))"
    by simp_all
qed

subsection \<open>The scan for URLs\<close>

lemma no_space_append [simp]: "no_space (xs @ ys) \<longleftrightarrow> no_space xs \<and> no_space ys"
  by (auto simp: no_space_def)

lemma no_space_Nil [simp]: "no_space []"
  by (simp add: no_space_def)

lemma no_space_Cons [simp]: "no_space (x # xs) \<longleftrightarrow> \<not> is_space x \<and> no_space xs"
  by (simp add: no_space_def)

lemma scheme_chars [simp]:
  "\<not> is_space CHR ''h''" "\<not> is_space CHR ''t''" "\<not> is_space CHR ''p''"
  "\<not> is_space CHR ''s''" "\<not> is_space CHR '':''" "\<not> is_space CHR ''/''"
  by (simp_all add: is_space_def)

lemma no_space_takeWhile [simp]: "no_space (takeWhile (\<lambda>c. \<not> is_space c) xs)"
  by (auto simp: no_space_def dest: set_takeWhileD)

lemma takeWhile_run:
  "no_space u \<Longrightarrow> post = [] \<or> is_space (hd post) \<Longrightarrow>
   takeWhile (\<lambda>c. \<not> is_space c) (u @ post) = u"
  by (cases post) (auto simp: no_space_def takeWhile_append2)

lemma dropWhile_run:
  "no_space u \<Longrightarrow> post = [] \<or> is_space (hd post) \<Longrightarrow>
   dropWhile (\<lambda>c. \<not> is_space c) (u @ post) = post"
  by (cases post) (auto simp: no_space_def dropWhile_append2)

lemma match_url_cases:
  assumes "match_url t = Some (m, rest)"
  shows "\<exists>p t'. (p = ''http://'' \<or> p = ''https://'') \<and> t = p @ t'
           \<and> takeWhile (\<lambda>c. \<not> is_space c) t' \<noteq> []
           \<and> m = p @ takeWhile (\<lambda>c. \<not> is_space c) t'
           \<and> rest = dropWhile (\<lambda>c. \<not> is_space c) t'"
proof (cases "prefix ''https://'' t")
  case True
  then obtain t' where "t = ''https://'' @ t'" by (auto simp: prefix_def)
  with assms show ?thesis
    by (intro exI [of _ "''https://''"] exI [of _ t'])
       (auto simp: match_url_def Let_def split: if_splits)
next
  case False
  show ?thesis
  proof (cases "prefix ''http://'' t")
    case True
    then obtain t' where "t = ''http://'' @ t'" by (auto simp: prefix_def)
    with assms False show ?thesis
      by (intro exI [of _ "''http://''"] exI [of _ t'])
         (auto simp: match_url_def Let_def split: if_splits)
  next
    case no: False
    with False assms show ?thesis by (simp add: match_url_def)
  qed
qed

lemma match_url_Some:
  assumes "match_url t = Some (m, rest)"
  shows "t = m @ rest" "url_like m" "rest = [] \<or> is_space (hd rest)"
proof -
  from match_url_cases [OF assms] obtain p t'
    where p: "p = ''http://'' \<or> p = ''https://''" and t: "t = p @ t'"
    and run: "takeWhile (\<lambda>c. \<not> is_space c) t' \<noteq> []"
    and m: "m = p @ takeWhile (\<lambda>c. \<not> is_space c) t'"
    and rest: "rest = dropWhile (\<lambda>c. \<not> is_space c) t'"
    by blast
  show "t = m @ rest" by (simp add: m rest t)
  show "url_like m"
    unfolding url_like_def m using p run by auto
  show "rest = [] \<or> is_space (hd rest)"
    unfolding rest using hd_dropWhile [of "\<lambda>c. \<not> is_space c" t'] by auto
qed

lemma match_url_starts:
  assumes "url_starts t"
  shows "match_url t \<noteq> None"
proof -
  from assms obtain u rest r where t: "t = u @ rest" and r: "r \<noteq> []"
    and u: "u = ''http://'' @ r \<or> u = ''https://'' @ r" and ns: "no_space u"
    by (auto simp: url_starts_def url_like_def)
  from r ns u have h: "\<not> is_space (hd r)" by (cases r) auto
  from r h have tw: "takeWhile (\<lambda>c. \<not> is_space c) (r @ rest) \<noteq> []"
    by (cases r) auto
  from u show ?thesis
  proof
    assume "u = ''http://'' @ r"
    with tw show ?thesis by (simp add: match_url_def t Let_def)
  next
    assume "u = ''https://'' @ r"
    with tw show ?thesis by (simp add: match_url_def t Let_def)
  qed
qed

lemma match_url_None_iff:
  "match_url t = None \<longleftrightarrow> \<not> url_starts t"
proof
  assume "match_url t = None"
  with match_url_starts show "\<not> url_starts t" by blast
next
  assume n: "\<not> url_starts t"
  show "match_url t = None"
  proof (rule ccontr)
    assume "match_url t \<noteq> None"
    then obtain m rest where "match_url t = Some (m, rest)" by auto
    from match_url_Some(1,2) [OF this] n show False
      by (auto simp: url_starts_def)
  qed
qed

lemma reported_Nil: "\<not> reported [] u"
  by (auto simp: reported_def url_like_def)

lemma url_like_hd: "url_like u \<Longrightarrow> u \<noteq> [] \<and> \<not> is_space (hd u)"
  by (auto simp: url_like_def)

lemma reported_None:
  assumes "match_url (c # cs) = None"
  shows "reported (c # cs) u \<longleftrightarrow> reported cs u"
proof
  assume "reported (c # cs) u"
  then obtain pre post where ul: "url_like u" and s: "c # cs = pre @ u @ post"
    and e: "post = [] \<or> is_space (hd post)"
    and f: "\<And>a b. pre = a @ b \<Longrightarrow> b \<noteq> [] \<Longrightarrow> no_space b \<Longrightarrow> \<not> url_starts (b @ u @ post)"
    unfolding reported_def by blast
  have "pre \<noteq> []"
  proof
    assume "pre = []"
    with s ul have "url_starts (c # cs)" by (auto simp: url_starts_def)
    with assms show False by (simp add: match_url_None_iff)
  qed
  with s obtain pre' where pre: "pre = c # pre'" and cs: "cs = pre' @ u @ post"
    by (cases pre) auto
  have "\<not> url_starts (b @ u @ post)" if "pre' = a @ b" "b \<noteq> []" "no_space b" for a b
    using f [of "c # a" b] that by (simp add: pre)
  with ul cs e show "reported cs u"
    unfolding reported_def by blast
next
  assume "reported cs u"
  then obtain pre post where ul: "url_like u" and s: "cs = pre @ u @ post"
    and e: "post = [] \<or> is_space (hd post)"
    and f: "\<And>a b. pre = a @ b \<Longrightarrow> b \<noteq> [] \<Longrightarrow> no_space b \<Longrightarrow> \<not> url_starts (b @ u @ post)"
    unfolding reported_def by blast
  have "\<not> url_starts (b @ u @ post)" if ab: "c # pre = a @ b" "b \<noteq> []" "no_space b" for a b
  proof (cases a)
    case Nil
    with ab(1) s have "b @ u @ post = c # cs" by simp
    with assms show ?thesis by (simp add: match_url_None_iff)
  next
    case (Cons x a')
    with ab(1) have "pre = a' @ b" by simp
    from f [OF this ab(2,3)] show ?thesis .
  qed
  moreover have "c # cs = (c # pre) @ u @ post" by (simp add: s)
  ultimately show "reported (c # cs) u"
    unfolding reported_def using ul e by blast
qed

lemma reported_Some:
  assumes "match_url t = Some (m, rest)"
  shows "reported t u \<longleftrightarrow> u = m \<or> reported rest u"
proof -
  note t = match_url_Some(1) [OF assms] and um = match_url_Some(2) [OF assms]
    and er = match_url_Some(3) [OF assms]
  from um have nm: "no_space m" by (simp add: url_like_def)
  have st: "url_starts t" using t um by (auto simp: url_starts_def)
  show ?thesis
  proof
    assume "reported t u"
    then obtain pre post where ul: "url_like u" and s: "t = pre @ u @ post"
      and e: "post = [] \<or> is_space (hd post)"
      and f: "\<And>a b. pre = a @ b \<Longrightarrow> b \<noteq> [] \<Longrightarrow> no_space b \<Longrightarrow> \<not> url_starts (b @ u @ post)"
      unfolding reported_def by blast
    from ul have nu: "no_space u" by (simp add: url_like_def)
    from s t have "pre @ (u @ post) = m @ rest" by simp
    then consider (behind) us where "pre = m @ us" "us @ u @ post = rest"
      | (inside) us where "pre @ us = m" "u @ post = us @ rest"
      by (auto simp: append_eq_append_conv2)
    then show "u = m \<or> reported rest u"
    proof cases
      case behind
      have "\<not> url_starts (b @ u @ post)" if "us = a @ b" "b \<noteq> []" "no_space b" for a b
        using f [of "m @ a" b] that behind(1) by simp
      with ul e behind(2) have "reported rest u"
        unfolding reported_def by (metis append_assoc)
      then show ?thesis ..
    next
      case inside
      show ?thesis
      proof (cases "pre = []")
        case True
        with s t have eq: "u @ post = m @ rest" by simp
        have "u = takeWhile (\<lambda>c. \<not> is_space c) (u @ post)"
          using takeWhile_run [OF nu e] by simp
        also have "\<dots> = m"
          unfolding eq using takeWhile_run [OF nm er] .
        finally show ?thesis ..
      next
        case False
        from inside(1) nm have "no_space pre" by auto
        from f [of "[]" pre, simplified, OF False this] st s
        show ?thesis by simp
      qed
    qed
  next
    assume "u = m \<or> reported rest u"
    then show "reported t u"
    proof
      assume "u = m"
      with t um er show ?thesis
        unfolding reported_def by (intro conjI exI [of _ "[]"] exI [of _ rest]) auto
    next
      assume "reported rest u"
      then obtain pre post where ul: "url_like u" and s: "rest = pre @ u @ post"
        and e: "post = [] \<or> is_space (hd post)"
        and f: "\<And>a b. pre = a @ b \<Longrightarrow> b \<noteq> [] \<Longrightarrow> no_space b \<Longrightarrow> \<not> url_starts (b @ u @ post)"
        unfolding reported_def by blast
      from url_like_hd [OF ul] have hu: "u \<noteq> []" "\<not> is_space (hd u)" by auto
      have pre: "pre \<noteq> [] \<and> is_space (hd pre)"
      proof (cases pre)
        case Nil
        with s hu er show ?thesis by (cases u) auto
      next
        case (Cons x xs)
        with s er show ?thesis by auto
      qed
      have "\<not> url_starts (b @ u @ post)" if ab: "m @ pre = a @ b" "b \<noteq> []" "no_space b" for a b
      proof -
        from ab(1) consider (behind) us where "a = m @ us" "us @ b = pre"
          | (inside) us where "a @ us = m" "b = us @ pre"
          by (auto simp: append_eq_append_conv2)
        then show ?thesis
        proof cases
          case behind
          from f [OF behind(2) [symmetric] ab(2,3)] show ?thesis .
        next
          case inside
          with ab(3) pre show ?thesis by (cases pre) auto
        qed
      qed
      moreover have "t = (m @ pre) @ u @ post" by (simp add: t s)
      ultimately show ?thesis
        unfolding reported_def using ul e by blast
    qed
  qed
qed

lemma findall_url_reported:
  "u \<in> set (findall_url t) \<longleftrightarrow> reported t u"
proof (induction t rule: findall_url.induct)
  case 1
  then show ?case by (simp add: reported_Nil)
next
  case (2 c cs)
  show ?case
  proof (cases "match_url (c # cs)")
    case None
    with 2(1) show ?thesis by (simp add: reported_None)
  next
    case (Some x)
    obtain m rest where x: "x = (m, rest)" by (cases x)
    from 2(2) [OF Some x [symmetric]] Some x show ?thesis
      by (simp add: reported_Some [of "c # cs" m rest])
  qed
qed

lemma search_string_values:
  "set (search j) = (\<Union>s\<in>set (string_values j). set (findall_url s))"
  by (induction j rule: search.induct) simp_all

lemma set_search:
  "u \<in> set (search j) \<longleftrightarrow> (\<exists>s\<in>set (string_values j). reported s u)"
  by (simp add: search_string_values findall_url_reported)

lemma reported_substring:
  "reported s u \<Longrightarrow> url_substring s u"
  unfolding reported_def url_substring_def by blast

lemma url_like_prefix:
  "url_like u \<Longrightarrow> prefix ''http://'' u \<or> prefix ''https://'' u"
  by (auto simp: url_like_def)

section \<open>The claims\<close>

text \<open>
  Claim C1 says that only a failure of the loader makes \<open>main\<close> return early.  In a run
  that gets to loading, when the loader fails, \<open>main\<close> prints the error and returns
  with nothing written.  It does the same, without a message, when the file holds the
  empty object: the document is loaded, and \<^verbatim>\<open>if not json_data\<close> takes it for no
  document.
\<close>

theorem main_returns_early:
  "(folder_ok w arg \<and> read_json w input_file = Inl e \<longrightarrow>
      main w input_file arg =
        ((case arg of None \<Rightarrow> [] | Some d \<Rightarrow> if path_exists w d then [] else [MakeDirs d])
         @ [Print (''Error loading JSON file: '' @ e)], Inr ()))
   \<and> (folder_ok w arg \<and> read_json w input_file = Inr (JDict []) \<longrightarrow>
      load_json w input_file = ([], Inr (JDict []))
      \<and> main w input_file arg =
        ((case arg of None \<Rightarrow> [] | Some d \<Rightarrow> if path_exists w d then [] else [MakeDirs d]),
         Inr ()))"
  by (cases arg) (auto simp: main_def load_json_def bind_run_def emit_def folder_ok_def)

theorem main_returns_early_witness:
  "main (example_world (\<lambda>p. Inr (JDict []))) ''input.json'' None = ([], Inr ())
   \<and> main (example_world (\<lambda>p. Inl ''No such file'')) ''input.json'' None =
       ([Print ''Error loading JSON file: No such file''], Inr ())"
  using main_returns_early
      [where w = "example_world (\<lambda>p. Inr (JDict []))" and input_file = "''input.json''"
         and arg = None]
    main_returns_early
      [where w = "example_world (\<lambda>p. Inl ''No such file'')" and input_file = "''input.json''"
         and e = "''No such file''" and arg = None]
  by (simp add: example_world_def folder_ok_def)

text \<open>
  Claim C2, as the specification states it, has every URL-like substring of every string
  value in the result.  The scan goes from left to right and its matches do not overlap:
  a URL-like substring that begins inside a match is not reported on its own.
\<close>

theorem extract_urls_counterexample:
  "url_substring ''http://a.example,http://b.example'' ''http://b.example''
   \<and> string_values (JStr ''http://a.example,http://b.example'')
       = [''http://a.example,http://b.example'']
   \<and> extract_urls (example_world (\<lambda>p. Inl [])) (JStr ''http://a.example,http://b.example'')
       = [''http://a.example,http://b.example'']"
proof -
  have "url_like ''http://b.example''"
    unfolding url_like_def by (intro conjI exI [of _ "''b.example''"]) (simp_all add: is_space_def)
  then have "url_substring ''http://a.example,http://b.example'' ''http://b.example''"
    unfolding url_substring_def
    by (intro conjI exI [of _ "''http://a.example,''"] exI [of _ "[]"]) simp_all
  moreover have "extract_urls (example_world (\<lambda>p. Inl [])) (JStr ''http://a.example,http://b.example'')
       = [''http://a.example,http://b.example'']"
    by code_simp
  ultimately show ?thesis by simp
qed

text \<open>
  Claim C2, amended.  For every document and every order of enumeration of a set,
  \<open>extract_urls\<close> returns a list without repetitions, each element of which begins
  with one of the two prefixes; its elements are exactly the URL-like substrings of the
  string values of the document (in mapping values and sequence items at any depth,
  never in keys) that do not begin inside another URL-like substring of the same string,
  so a string with several such URLs gives them all; the keys of a mapping have no
  effect on the result; and a document without URL-like substrings gives the empty list.
\<close>

theorem extract_urls_reported:
  assumes "set_order_ok w"
  shows "distinct (extract_urls w json_data)
       \<and> (\<forall>u\<in>set (extract_urls w json_data). prefix ''http://'' u \<or> prefix ''https://'' u)
       \<and> (\<forall>u. u \<in> set (extract_urls w json_data)
                \<longleftrightarrow> (\<exists>s\<in>set (string_values json_data). reported s u))
       \<and> extract_urls w (JDict kvs) = extract_urls w (JList (map snd kvs))
       \<and> ((\<forall>s\<in>set (string_values json_data). \<forall>u. \<not> url_substring s u)
            \<longrightarrow> extract_urls w json_data = [])"
proof -
  from assms have d: "distinct (extract_urls w json_data)"
    and s: "set (extract_urls w json_data) = set (search json_data)"
    by (simp_all add: set_order_ok_def extract_urls_def)
  have m: "u \<in> set (extract_urls w json_data)
           \<longleftrightarrow> (\<exists>s\<in>set (string_values json_data). reported s u)" for u
    by (simp add: s set_search)
  have p: "prefix ''http://'' u \<or> prefix ''https://'' u" if "u \<in> set (extract_urls w json_data)" for u
    using that unfolding m by (auto simp: reported_def dest: url_like_prefix)
  have k: "extract_urls w (JDict kvs) = extract_urls w (JList (map snd kvs))"
    by (simp add: extract_urls_def o_def)
  have e: "extract_urls w json_data = []"
    if "\<forall>s\<in>set (string_values json_data). \<forall>u. \<not> url_substring s u"
  proof -
    have "u \<notin> set (extract_urls w json_data)" for u
      using that m [of u] reported_substring by blast
    then show ?thesis by (cases "extract_urls w json_data") auto
  qed
  from d p m k e show ?thesis by blast
qed

theorem extract_urls_reported_witness:
  "extract_urls (example_world (\<lambda>p. Inl []))
     (JDict [(''http://key.example'',
              JList [JStr ''see http://a.example/x and https://b.example, then http://a.example/x'',
                     JInt 3,
                     JDict [(''k'', JStr ''xhttps://c.example'')]])])
   = [''https://b.example,'', ''http://a.example/x'', ''https://c.example'']
   \<and> distinct (extract_urls (example_world (\<lambda>p. Inl []))
     (JDict [(''http://key.example'',
              JList [JStr ''see http://a.example/x and https://b.example, then http://a.example/x'',
                     JInt 3,
                     JDict [(''k'', JStr ''xhttps://c.example'')]])]))"
proof -
  have "extract_urls (example_world (\<lambda>p. Inl []))
     (JDict [(''http://key.example'',
              JList [JStr ''see http://a.example/x and https://b.example, then http://a.example/x'',
                     JInt 3,
                     JDict [(''k'', JStr ''xhttps://c.example'')]])])
   = [''https://b.example,'', ''http://a.example/x'', ''https://c.example'']"
    by code_simp
  moreover note extract_urls_reported [OF example_world_ok(1), THEN conjunct1, of "\<lambda>p. Inl []"
      "JDict [(''http://key.example'',
              JList [JStr ''see http://a.example/x and https://b.example, then http://a.example/x'',
                     JInt 3,
                     JDict [(''k'', JStr ''xhttps://c.example'')]])]"]
  ultimately show ?thesis by simp
qed

text \<open>
  Claim C3, as the specification states it, asks for the score to be the number of
  different keywords found in the URL.  The code counts every entry of the keyword
  list: a keyword entered twice counts twice.
\<close>

theorem url_score_counterexample:
  "url_score [''maps'', ''maps''] ''http://maps.example.com'' = 2
   \<and> spec_score [''maps'', ''maps''] ''http://maps.example.com'' = 1"
  by code_simp

text \<open>
  Claim C3, amended.  For every list of keywords in lower case (the default list is
  one), the score of a URL is the number of entries of the keyword list that occur in
  the URL when case is ignored, an entry that stands twice in the list counting twice;
  for a list without repetitions it is the number of different keywords found.  For
  every keyword list, a URL of a higher score stands in the output before every URL of
  a lower score, and the URLs of one score stand in the order of the input.
\<close>

theorem sort_urls_by_relevance_ranked:
  "(let keywords = keywords_or_default keywords_arg;
        ranked = sort_urls_by_relevance urls keywords_arg
    in ((\<forall>keyword\<in>set keywords. lower keyword = keyword) \<longrightarrow>
          (\<forall>url. url_score keywords url = entry_score keywords url)
          \<and> (distinct keywords \<longrightarrow> (\<forall>url. url_score keywords url = spec_score keywords url)))
     \<and> (\<forall>i j. i < length ranked \<and> j < length ranked
                \<and> url_score keywords (ranked ! j) < url_score keywords (ranked ! i)
              \<longrightarrow> i < j)
     \<and> (\<forall>k. filter (\<lambda>url. url_score keywords url = k) ranked
              = filter (\<lambda>url. url_score keywords url = k) urls))"
proof -
  let ?kws = "keywords_or_default keywords_arg"
  let ?out = "sort_urls_by_relevance urls keywords_arg"
  obtain ks where ks: "distinct ks" "set ks = url_score ?kws ` set urls"
    "sorted_wrt (\<lambda>a b. b < a) ks"
    and eq: "?out = concat (map (\<lambda>k. filter (\<lambda>u. url_score ?kws u = k) urls) ks)"
    using ranked_eq by blast
  have desc: "sorted_wrt (\<lambda>a b. url_score ?kws b \<le> url_score ?kws a) ?out"
    unfolding eq by (rule sorted_buckets [OF ks(3)])
  have order: "i < j" if "i < length ?out" "j < length ?out"
    "url_score ?kws (?out ! j) < url_score ?kws (?out ! i)" for i j
  proof (rule ccontr)
    assume "\<not> i < j"
    with that(3) have "j < i" by (cases "i = j") auto
    with desc that(1) have "url_score ?kws (?out ! i) \<le> url_score ?kws (?out ! j)"
      by (simp add: sorted_wrt_iff_nth_less)
    with that(3) show False by simp
  qed
  have stable: "filter (\<lambda>url. url_score ?kws url = k) ?out
                = filter (\<lambda>url. url_score ?kws url = k) urls" for k
  proof (cases "k \<in> set ks")
    case True
    then show ?thesis unfolding eq by (simp add: filter_buckets [OF ks(1)])
  next
    case False
    then have "filter (\<lambda>url. url_score ?kws url = k) urls = []"
      using ks(2) by (auto simp: filter_empty_conv)
    with False show ?thesis unfolding eq by (simp add: filter_buckets [OF ks(1)])
  qed
  have score: "url_score ?kws url = entry_score ?kws url
               \<and> (distinct ?kws \<longrightarrow> url_score ?kws url = spec_score ?kws url)"
    if "\<forall>keyword\<in>set ?kws. lower keyword = keyword" for url
    using url_score_entry [OF that] entry_score_spec by simp
  show ?thesis
    unfolding Let_def using score order stable by blast
qed

theorem sort_urls_by_relevance_ranked_witness:
  "url_score default_keywords ''https://flights.example.com/search?x=1''
     = entry_score default_keywords ''https://flights.example.com/search?x=1''
   \<and> url_score default_keywords ''https://flights.example.com/search?x=1''
     = spec_score default_keywords ''https://flights.example.com/search?x=1''
   \<and> url_score default_keywords ''https://flights.example.com/search?x=1'' = 2
   \<and> sort_urls_by_relevance
         [''http://a'', ''http://maps'', ''http://b'', ''http://maps/search''] None
       = [''http://maps/search'', ''http://maps'', ''http://a'', ''http://b'']"
proof -
  have l: "\<forall>keyword\<in>set default_keywords. lower keyword = keyword"
    by (simp add: default_keywords_def lower_def lower_char_def)
  have d: "distinct default_keywords"
    by (simp add: default_keywords_def)
  have "url_score default_keywords ''https://flights.example.com/search?x=1''
          = entry_score default_keywords ''https://flights.example.com/search?x=1''
        \<and> url_score default_keywords ''https://flights.example.com/search?x=1''
          = spec_score default_keywords ''https://flights.example.com/search?x=1''"
    using sort_urls_by_relevance_ranked
            [of None "[]", unfolded Let_def keywords_or_default_def option.case] l d
    by blast
  moreover have "url_score default_keywords ''https://flights.example.com/search?x=1'' = 2"
    by code_simp
  moreover have "sort_urls_by_relevance
         [''http://a'', ''http://maps'', ''http://b'', ''http://maps/search''] None
       = [''http://maps/search'', ''http://maps'', ''http://a'', ''http://b'']"
    by code_simp
  ultimately show ?thesis by simp
qed

text \<open>
  Claim C4, as the specification states it, lets \<open>extract_chain_of_thought\<close> raise on no
  valid JSON document.  A document that is a number is not iterable, and a document that
  is a sequence has no method \<^verbatim>\<open>get\<close>: on both the function raises.
\<close>

theorem extract_chain_of_thought_counterexample:
  "extract_chain_of_thought (JInt 5) = ([], Inl TypeError)
   \<and> extract_chain_of_thought (JList []) =
       ([Print ''Warning: 'chain_of_thought' key not found in JSON. Using an empty list.''],
        Inl AttributeError)"
  by (simp add: extract_chain_of_thought_def)

text \<open>
  Claim C4, amended.  For every document whose top level is a mapping without a field
  \<^verbatim>\<open>chain_of_thought\<close>, \<open>extract_chain_of_thought\<close> prints the warning and returns the
  empty sequence; on a document whose top level is a mapping it never raises.
\<close>

theorem extract_chain_of_thought_absent:
  "(''chain_of_thought'' \<notin> fst ` set kvs \<longrightarrow>
      extract_chain_of_thought (JDict kvs) =
        ([Print ''Warning: 'chain_of_thought' key not found in JSON. Using an empty list.''],
         Inr (JList [])))
   \<and> (\<exists>es chain. extract_chain_of_thought (JDict kvs) = (es, Inr chain))"
proof -
  have "map_of kvs ''chain_of_thought'' = None" if "''chain_of_thought'' \<notin> fst ` set kvs"
    using that by (simp add: map_of_eq_None_iff)
  then show ?thesis
    by (simp add: extract_chain_dict chain_warning_def)
qed

theorem extract_chain_of_thought_absent_witness:
  "extract_chain_of_thought (JDict [(''location'', JStr ''NYC'')]) =
     ([Print ''Warning: 'chain_of_thought' key not found in JSON. Using an empty list.''],
      Inr (JList []))"
  using extract_chain_of_thought_absent [of "[(''location'', JStr ''NYC'')]"] by simp

text \<open>
  Claim C5.  On the example document of the specification, in any environment where the
  run gets to loading and the file reads as that document, the run ends without an
  exception and writes a JSON report
  whose \<^verbatim>\<open>metadata.location\<close> is \<^verbatim>\<open>NYC\<close>, whose \<^verbatim>\<open>tool_executions\<close> has one element and
  whose \<^verbatim>\<open>sorted_urls\<close> is the list of the one URL, which scores 2.
\<close>

theorem end_to_end_example:
  assumes "set_order_ok w" and "folder_ok w arg"
    and "read_json w input_file = Inr example_document"
  shows "snd (main w input_file arg) = Inr ()
       \<and> (\<exists>report.
             json_attempted (path_join (folder_of arg) ''extracted_data.json'') report
               (fst (main w input_file arg))
           \<and> bind_err (py_index report ''metadata'') (\<lambda>metadata. py_index metadata ''location'')
               = Inr (JStr ''NYC'')
           \<and> (\<exists>recs. py_index report ''tool_executions'' = Inr (JList recs) \<and> length recs = 1)
           \<and> py_index report ''sorted_urls''
               = Inr (JList [JStr ''https://flights.example.com/search?x=1'']))
       \<and> url_score default_keywords ''https://flights.example.com/search?x=1'' = 2"
proof -
  have score: "url_score default_keywords ''https://flights.example.com/search?x=1'' = 2"
    by code_simp
  from example_run(1,2) [OF assms(1,3,2)] score show ?thesis
    by (intro conjI exI [of _ "JDict [(''metadata'', JDict [(''location'', JStr ''NYC''), (''time'', JStr []),
                                         (''error'', JStr []), (''observation'', JStr [])]),
                   (''chain_of_thought'',
                      JList [JDict [(''tool_executions'',
                        JList [JDict [(''tool_name'', JStr ''flights''), (''params'', JDict []),
                                      (''output'', JList [JInt 1])]])]]),
                   (''tool_executions'',
                      JList [JDict [(''tool_name'', JStr ''flights''), (''params'', JDict []),
                                    (''output'', JList [JInt 1])]]),
                   (''sorted_urls'', JList [JStr example_url])]"])
       (simp_all add: bind_err_def example_url_def)
qed

theorem end_to_end_example_witness:
  "snd (main (example_world (\<lambda>p. Inr example_document)) ''input.json'' None) = Inr ()
   \<and> (\<exists>report.
         json_attempted ''./extracted_data.json'' report
           (fst (main (example_world (\<lambda>p. Inr example_document)) ''input.json'' None))
       \<and> bind_err (py_index report ''metadata'') (\<lambda>metadata. py_index metadata ''location'')
           = Inr (JStr ''NYC'')
       \<and> (\<exists>recs. py_index report ''tool_executions'' = Inr (JList recs) \<and> length recs = 1)
       \<and> py_index report ''sorted_urls''
           = Inr (JList [JStr ''https://flights.example.com/search?x=1'']))"
proof -
  have rd: "read_json (example_world (\<lambda>p. Inr example_document)) ''input.json''
            = Inr example_document"
    by (simp add: example_world_def)
  have p: "path_join (folder_of None) ''extracted_data.json'' = ''./extracted_data.json''"
    by (simp add: path_join_def folder_of_def)
  from end_to_end_example [OF example_world_ok rd, of None] show ?thesis
    unfolding p by blast
qed

text \<open>
  Claim C6.  Flattening a tool-execution record (a mapping) gives exactly the four fields
  \<^verbatim>\<open>tool_name\<close> and \<^verbatim>\<open>method_name\<close> (the record's, or the empty string), and
  \<^verbatim>\<open>params\<close> and \<^verbatim>\<open>output\<close> (the JSON text of the record's, or of the empty mapping and
  the empty sequence).  The record of the specification's example flattens as the
  specification says.
\<close>

theorem flatten_tool_execution_fields:
  \<open>flatten_tool_execution w (JDict kvs) =
     Inr [(''tool_name'', case map_of kvs ''tool_name'' of None \<Rightarrow> JStr '''' | Some v \<Rightarrow> v),
          (''method_name'', case map_of kvs ''method_name'' of None \<Rightarrow> JStr '''' | Some v \<Rightarrow> v),
          (''params'',
             JStr (json_dumps w (case map_of kvs ''params'' of None \<Rightarrow> JDict [] | Some v \<Rightarrow> v))),
          (''output'',
             JStr (json_dumps w (case map_of kvs ''output'' of None \<Rightarrow> JList [] | Some v \<Rightarrow> v)))]
   \<and> flatten_tool_execution w
         (JDict [(''tool_name'', JStr ''maps''), (''params'', JDict [(''q'', JStr ''sushi'')])])
       = Inr [(''tool_name'', JStr ''maps''),
              (''method_name'', JStr ''''),
              (''params'', JStr ''{"q": "sushi"}''),
              (''output'', JStr ''[]'')]\<close>
  by (simp add: flatten_dict quote_def escape_char_def)

text \<open>
  Claim C7, as the specification states it, covers every document whose
  \<^verbatim>\<open>chain_of_thought\<close> is a sequence of mappings.  The program takes the field
  \<^verbatim>\<open>tool_executions\<close> of a step to be a sequence, and a record to be a mapping: on a
  step whose field is \<^verbatim>\<open>null\<close> the extraction raises, and on a record that is a
  string the run raises when it flattens the record, before the report is written.
\<close>

theorem extract_tool_executions_counterexample:
  "py_get null_field_document ''chain_of_thought'' JNull
     = Inr (JList [JDict [(''tool_executions'', JNull)]])
   \<and> extract_tool_executions null_field_document = ([], Inl TypeError)
   \<and> py_get raising_document ''chain_of_thought'' JNull
     = Inr (JList [JDict [(''tool_executions'', JList [JStr ''x''])]])
   \<and> extract_tool_executions raising_document = ([], Inr [JStr ''x''])
   \<and> main (example_world (\<lambda>p. Inr raising_document)) ''input.json'' None
     = ([], Inl AttributeError)"
  by code_simp

text \<open>
  Claim C7, amended.  For a document whose \<^verbatim>\<open>chain_of_thought\<close> is a sequence of steps
  that are mappings whose field \<^verbatim>\<open>tool_executions\<close>, when present, is a sequence,
  \<open>extract_tool_executions\<close> returns the records of the steps, step after step and in the
  order within each step; a step without the field gives none.  When, moreover, the
  records are mappings and the run gets to loading, the run ends without an exception
  and the report it writes holds these very records under \<^verbatim>\<open>tool_executions\<close>, not their
  flattened form.
\<close>

theorem extract_tool_executions_flat:
  assumes "map_of kvs ''chain_of_thought'' = Some (JList steps)" and "list_all step_ok steps"
  shows "extract_tool_executions (JDict kvs) = ([], Inr (concat (map step_records steps)))
       \<and> (folder_ok w arg \<and> read_json w input_file = Inr (JDict kvs)
            \<and> list_all is_mapping (concat (map step_records steps))
          \<longrightarrow> snd (main w input_file arg) = Inr ()
              \<and> (\<exists>report.
                    json_attempted (path_join (folder_of arg) ''extracted_data.json'') report
                      (fst (main w input_file arg))
                  \<and> py_index report ''tool_executions''
                      = Inr (JList (concat (map step_records steps)))))"
proof -
  note ex = extract_tool_executions_ok [OF assms]
  have ne: "kvs \<noteq> []" using assms(1) by auto
  have "snd (main w input_file arg) = Inr ()
        \<and> (\<exists>report.
              json_attempted (path_join (folder_of arg) ''extracted_data.json'') report
                (fst (main w input_file arg))
            \<and> py_index report ''tool_executions'' = Inr (JList (concat (map step_records steps))))"
    if fo: "folder_ok w arg" and rd: "read_json w input_file = Inr (JDict kvs)"
      and mp: "list_all is_mapping (concat (map step_records steps))"
  proof -
    obtain flat where
      fl: "map_err (flatten_tool_execution w) (concat (map step_records steps)) = Inr flat"
      using flatten_mappings [OF mp] by blast
    from json_attempted_main [OF rd ne ex fl fo] show ?thesis
      by (intro conjI exI [of _ "report_of w kvs (concat (map step_records steps))"])
         (simp_all add: report_of_def)
  qed
  with ex show ?thesis by blast
qed

theorem extract_tool_executions_flat_witness:
  "extract_tool_executions example_document =
     ([], Inr [JDict [(''tool_name'', JStr ''flights''), (''params'', JDict []),
                      (''output'', JList [JInt 1])]])
   \<and> snd (main (example_world (\<lambda>p. Inr example_document)) ''input.json'' None) = Inr ()
   \<and> (\<exists>report.
         json_attempted ''./extracted_data.json'' report
           (fst (main (example_world (\<lambda>p. Inr example_document)) ''input.json'' None))
       \<and> py_index report ''tool_executions''
           = Inr (JList [JDict [(''tool_name'', JStr ''flights''), (''params'', JDict []),
                                (''output'', JList [JInt 1])]]))"
proof -
  let ?rec = "JDict [(''tool_name'', JStr ''flights''), (''params'', JDict []),
                     (''output'', JList [JInt 1])]"
  let ?steps = "[JDict [(''tool_executions'', JList [?rec])]]"
  let ?kvs = "[(''location'', JStr ''NYC''), (''chain_of_thought'', JList ?steps),
               (''notes'', JStr ''see https://flights.example.com/search?x=1'')]"
  have doc: "example_document = JDict ?kvs" by (simp add: example_document_def)
  have rd: "read_json (example_world (\<lambda>p. Inr example_document)) ''input.json'' = Inr (JDict ?kvs)"
    by (simp add: example_world_def doc)
  have p: "path_join (folder_of None) ''extracted_data.json'' = ''./extracted_data.json''"
    by (simp add: path_join_def folder_of_def)
  have a: "map_of ?kvs ''chain_of_thought'' = Some (JList ?steps)" by simp
  have b: "list_all step_ok ?steps" by simp
  have c: "concat (map step_records ?steps) = [?rec]" by simp
  from extract_tool_executions_flat
         [OF a b, where w = "example_world (\<lambda>p. Inr example_document)" and arg = None
            and input_file = "''input.json''"]
       rd example_world_ok(2) [of "\<lambda>p. Inr example_document" None]
  show ?thesis
    unfolding p c doc by simp
qed




text \<open>
  Claim C9.  Ranking neither adds nor drops a URL: for every list of URLs and every
  keyword argument, the output of \<open>sort_urls_by_relevance\<close> has every URL as often as
  the input has it.
\<close>

theorem sort_urls_by_relevance_permutation:
  "mset (sort_urls_by_relevance urls keywords_arg) = mset urls"
  by (rule mset_sort_urls)

end
